theory Spec2Isabelle
  imports Main
begin

section \<open>Python strings and dictionaries\<close>

text \<open>
  A Python \<open>str\<close> is modelled as a \<open>string\<close> whose characters are the code points
  below 256. A Python \<open>dict\<close> with string keys is an association list in insertion
  order; the keys of a dictionary are distinct.
\<close>

datatype error = KeyError | TypeError | ValueError | StopIteration

type_synonym pydict = "(string \<times> string) list"

text \<open>\<open>str.isspace\<close> on one character, for the code points below 256.\<close>

definition isspace :: "char \<Rightarrow> bool" where
  "isspace c =
     (let n = (of_char c :: nat)
      in (9 \<le> n \<and> n \<le> 13) \<or> (28 \<le> n \<and> n \<le> 32) \<or> n = 133 \<or> n = 160)"

text \<open>\<open>s.strip()\<close>\<close>

definition strip :: "string \<Rightarrow> string" where
  "strip s = rev (dropWhile isspace (rev (dropWhile isspace s)))"

text \<open>\<open>s.startswith(p)\<close> and \<open>s.endswith(p)\<close>\<close>

definition startswith :: "string \<Rightarrow> string \<Rightarrow> bool" where
  "startswith s p = (take (length p) s = p)"

definition endswith :: "string \<Rightarrow> string \<Rightarrow> bool" where
  "endswith s p = (length p \<le> length s \<and> drop (length s - length p) s = p)"

text \<open>
  \<open>s.split(sep)\<close> for a separator that is not empty: the separators are found from
  the left and do not overlap. \<open>cur\<close> holds the characters of the current piece.
\<close>

function split_from :: "string \<Rightarrow> string \<Rightarrow> string \<Rightarrow> string list" where
  "split_from sep cur [] = [cur]"
| "split_from sep cur (c # cs) =
     (if sep \<noteq> [] \<and> startswith (c # cs) sep
      then cur # split_from sep [] (drop (length sep) (c # cs))
      else split_from sep (cur @ [c]) cs)"
  by pat_completeness auto
termination
  by (relation "measure (\<lambda>(sep, cur, s). length s)") auto

definition split :: "string \<Rightarrow> string \<Rightarrow> string list" where
  "split s sep = split_from sep [] s"

text \<open>\<open>s.replace(old, new)\<close> for \<open>old\<close> that is not empty.\<close>

function replace :: "string \<Rightarrow> string \<Rightarrow> string \<Rightarrow> string" where
  "replace [] old new = []"
| "replace (c # cs) old new =
     (if old \<noteq> [] \<and> startswith (c # cs) old
      then new @ replace (drop (length old) (c # cs)) old new
      else c # replace cs old new)"
  by pat_completeness auto
termination
  by (relation "measure (\<lambda>(s, old, new). length s)") auto

text \<open>\<open>sep.join(xs)\<close>\<close>

fun join :: "string \<Rightarrow> string list \<Rightarrow> string" where
  "join sep [] = []"
| "join sep [x] = x"
| "join sep (x # y # ys) = x @ sep @ join sep (y # ys)"

text \<open>The decimal numeral of a natural number, as \<open>f"{i}"\<close> prints it.\<close>

definition digit :: "nat \<Rightarrow> char" where
  "digit d = char_of (48 + d)"

fun str_nat :: "nat \<Rightarrow> string" where
  "str_nat n = (if n < 10 then [digit n] else str_nat (n div 10) @ [digit (n mod 10)])"

declare str_nat.simps [simp del]

text \<open>
  Dictionary operations: \<open>d[k]\<close> is \<open>map_of d k\<close> (\<open>None\<close> where Python raises
  \<open>KeyError\<close>), \<open>d[k] = v\<close> keeps the position of a key that is present and appends
  a new one, \<open>d.pop(k, None)\<close> removes the key.
\<close>

definition has_key :: "pydict \<Rightarrow> string \<Rightarrow> bool" where
  "has_key d k = (map_of d k \<noteq> None)"

fun dict_set :: "pydict \<Rightarrow> string \<Rightarrow> string \<Rightarrow> pydict" where
  "dict_set [] k v = [(k, v)]"
| "dict_set (p # ps) k v = (if fst p = k then (k, v) # ps else p # dict_set ps k v)"

definition dict_pop :: "pydict \<Rightarrow> string \<Rightarrow> pydict" where
  "dict_pop d k = filter (\<lambda>p. fst p \<noteq> k) d"

section \<open>The RIS reader\<close>

text \<open>
  \<open>RISFileReader.ris_to_dict\<close>: the loop over the lines carries \<open>content\<close> and
  \<open>oldkey\<close>; \<open>content[oldkey]\<close> raises \<open>KeyError\<close> while \<open>oldkey\<close> is \<open>None\<close>.
\<close>

definition line_key :: "string \<Rightarrow> string" where
  "line_key line = strip (take 4 line)"

definition line_value :: "string \<Rightarrow> string" where
  "line_value line = strip (drop 6 line)"

definition ris_line :: "string \<Rightarrow> pydict \<times> string option \<Rightarrow> error + pydict \<times> string option" where
  "ris_line line st =
     (let content = fst st; oldkey = snd st;
          key = line_key line; val = line_value line
      in if key = [] then
           (case oldkey of
              None \<Rightarrow> Inl KeyError
            | Some ok \<Rightarrow>
                (case map_of content ok of
                   None \<Rightarrow> Inl KeyError
                 | Some old \<Rightarrow> Inr (dict_set content ok (old @ '' '' @ val), oldkey)))
         else
           (case map_of content key of
              Some old \<Rightarrow> Inr (dict_set content key (old @ ''; '' @ val), Some key)
            | None \<Rightarrow> Inr (dict_set content key val, Some key)))"

fun ris_lines :: "string list \<Rightarrow> pydict \<times> string option \<Rightarrow> error + pydict \<times> string option" where
  "ris_lines [] st = Inr st"
| "ris_lines (line # lines) st =
     (case ris_line line st of Inl e \<Rightarrow> Inl e | Inr st' \<Rightarrow> ris_lines lines st')"

definition ris_to_dict :: "string list \<Rightarrow> error + pydict" where
  "ris_to_dict lines =
     (case ris_lines lines ([], None) of Inl e \<Rightarrow> Inl e | Inr st \<Rightarrow> Inr (fst st))"

text \<open>
  \<open>RISFileReader.__next__\<close>: the file is the list of the lines not yet read. The
  result is what the call returns or raises, and the lines left in the file.
\<close>

fun next_from :: "string list \<Rightarrow> string list \<Rightarrow> (error + pydict) \<times> string list" where
  "next_from [] read_lines =
     (if length read_lines = 0 then (Inl StopIteration, [])
      else (ris_to_dict read_lines, []))"
| "next_from (line # file) read_lines =
     (if strip line = [] then (ris_to_dict read_lines, file)
      else next_from file (read_lines @ [line]))"

definition ris_next :: "string list \<Rightarrow> (error + pydict) \<times> string list" where
  "ris_next file = next_from file []"

section \<open>Scopus author names\<close>

function scopus_loop :: "string list \<Rightarrow> nat \<Rightarrow> string list \<Rightarrow> string list" where
  "scopus_loop author_split i names =
     (if int i < int (length author_split) - 1 then
        (let last_name = author_split ! i; first_name = author_split ! (i + 1)
         in if CHR ''.'' \<notin> set first_name
            then scopus_loop author_split (i + 1) (names @ [strip last_name])
            else scopus_loop author_split (i + 2)
                   (names @ [strip last_name @ '', '' @ strip first_name]))
      else names)"
  by pat_completeness auto
termination
  by (relation "measure (\<lambda>(author_split, i, names). length author_split - i)") auto

declare scopus_loop.simps [simp del]

definition scopus_author_canonicalize :: "string \<Rightarrow> string option" where
  "scopus_author_canonicalize authors =
     (if authors = ''[No author name available]'' then None
      else Some (join '' and '' (scopus_loop (split authors '','') 0 [])))"

section \<open>The mapping tables\<close>

text \<open>
  The files \<open>syntax_mapping.yaml\<close> and \<open>semantic_mapping.yaml\<close> are read at run
  time, so their contents are parameters of the model, as is the order in which Python
  lists the elements of a set of strings (\<open>set_pick\<close> gives the index of the first
  element listed).
\<close>

record env =
  syntax_yaml :: "(string \<times> pydict list) list"
  semantic_yaml :: "(string \<times> (string \<times> pydict) list) list"
  set_pick :: "string list \<Rightarrow> nat"

definition get_syntax_map :: "env \<Rightarrow> string \<Rightarrow> error + pydict list" where
  "get_syntax_map E dialect =
     (case map_of (syntax_yaml E) dialect of None \<Rightarrow> Inl KeyError | Some m \<Rightarrow> Inr m)"

definition get_semantic_map :: "env \<Rightarrow> string \<Rightarrow> error + (string \<times> pydict) list" where
  "get_semantic_map E dialect =
     (case map_of (semantic_yaml E) dialect of None \<Rightarrow> Inl KeyError | Some m \<Rightarrow> Inr m)"

section \<open>The stages of the pipeline\<close>

text \<open>
  \<open>schema_map\<close>: the row is \<open>None\<close> when \<open>preprocess_entry\<close> returned nothing, and
  \<open>key not in row\<close> raises \<open>TypeError\<close> then.
\<close>

fun schema_items :: "pydict option \<Rightarrow> (string \<times> string) list \<Rightarrow> pydict \<Rightarrow> error + pydict" where
  "schema_items row [] entry = Inr entry"
| "schema_items row ((key, bib_key) # items) entry =
     (case row of
        None \<Rightarrow> Inl TypeError
      | Some r \<Rightarrow>
          (case map_of r key of
             None \<Rightarrow> schema_items row items entry
           | Some v \<Rightarrow>
               if v = [] then schema_items row items entry
               else schema_items row items (dict_set entry bib_key v)))"

fun schema_rules :: "pydict option \<Rightarrow> pydict list \<Rightarrow> pydict \<Rightarrow> error + pydict" where
  "schema_rules row [] entry = Inr entry"
| "schema_rules row (synmap # syntax_map) entry =
     (case schema_items row synmap entry of
        Inl e \<Rightarrow> Inl e
      | Inr entry' \<Rightarrow> schema_rules row syntax_map entry')"

definition entry_id :: "string \<Rightarrow> nat \<Rightarrow> string" where
  "entry_id dialect i = dialect @ ''_'' @ str_nat i"

definition schema_map :: "env \<Rightarrow> nat \<Rightarrow> pydict option \<Rightarrow> string \<Rightarrow> error + pydict" where
  "schema_map E i row dialect =
     (case get_syntax_map E dialect of
        Inl e \<Rightarrow> Inl e
      | Inr syntax_map \<Rightarrow> schema_rules row syntax_map [(''ID'', entry_id dialect i)])"

text \<open>
  \<open>semantic_map\<close>: the loop runs over the items of the entry and assigns only to the
  key it is at, so the items it visits are those of the entry it started from.
\<close>

fun semantic_items :: "(string \<times> pydict) list \<Rightarrow> (string \<times> string) list \<Rightarrow> pydict \<Rightarrow> error + pydict" where
  "semantic_items sm [] entry = Inr entry"
| "semantic_items sm ((key, val) # items) entry =
     (case map_of sm key of
        None \<Rightarrow> semantic_items sm items entry
      | Some inner \<Rightarrow>
          (case map_of inner val of
             None \<Rightarrow> Inl KeyError
           | Some v \<Rightarrow> semantic_items sm items (dict_set entry key v)))"

definition semantic_map :: "env \<Rightarrow> pydict \<Rightarrow> string \<Rightarrow> error + pydict" where
  "semantic_map E entry dialect =
     (case get_semantic_map E dialect of
        Inl e \<Rightarrow> Inl e
      | Inr sm \<Rightarrow> semantic_items sm entry entry)"

definition ieee_clean_entry :: "pydict \<Rightarrow> pydict" where
  "ieee_clean_entry entry =
     (case map_of entry ''author'' of
        None \<Rightarrow> entry
      | Some a \<Rightarrow> dict_set entry ''author'' (replace a ''; '' '' and ''))"

definition scopus_clean_entry :: "pydict \<Rightarrow> pydict" where
  "scopus_clean_entry entry =
     (case map_of entry ''author'' of
        None \<Rightarrow> entry
      | Some a \<Rightarrow>
          (case scopus_author_canonicalize a of
             None \<Rightarrow> dict_pop entry ''author''
           | Some author \<Rightarrow> dict_set entry ''author'' author))"

text \<open>The loop over the identifiers of the \<open>doi\<close> field: the last match stays.\<close>

definition is_doi :: "string \<Rightarrow> bool" where
  "is_doi article_id = endswith (strip article_id) ''[doi]''"

definition doi_of :: "string \<Rightarrow> string" where
  "doi_of article_id = strip (take (length (strip article_id) - 5) (strip article_id))"

definition doi_step :: "string option \<Rightarrow> string \<Rightarrow> string option" where
  "doi_step doi article_id = (if is_doi article_id then Some (doi_of article_id) else doi)"

definition find_doi :: "string \<Rightarrow> string option" where
  "find_doi v = foldl doi_step None (split v '';'')"

definition pubmed_clean_doi :: "pydict \<Rightarrow> pydict" where
  "pubmed_clean_doi entry =
     (case map_of entry ''doi'' of
        None \<Rightarrow> entry
      | Some v \<Rightarrow>
          (case find_doi v of
             None \<Rightarrow> dict_pop entry ''doi''
           | Some doi \<Rightarrow>
               if doi \<noteq> [] then dict_set entry ''doi'' doi else dict_pop entry ''doi''))"

definition pubmed_clean_entry :: "pydict \<Rightarrow> pydict" where
  "pubmed_clean_entry entry =
     (let entry1 = (case map_of entry ''author'' of
                      None \<Rightarrow> entry
                    | Some a \<Rightarrow> dict_set entry ''author'' (replace a ''; '' '' and ''));
          entry2 = pubmed_clean_doi entry1
      in case map_of entry2 ''year'' of
           None \<Rightarrow> entry2
         | Some y \<Rightarrow> dict_set entry2 ''year'' (take 4 y))"

definition clean_entry :: "pydict \<Rightarrow> string \<Rightarrow> error + pydict" where
  "clean_entry entry dialect =
     (case map_of entry ''ENTRYTYPE'' of
        None \<Rightarrow> Inl KeyError
      | Some t \<Rightarrow>
          (let entry1 = (if t = ''article'' then dict_pop entry ''booktitle''
                         else dict_pop entry ''journal'')
           in if dialect = ''ieee'' then Inr (ieee_clean_entry entry1)
              else if dialect = ''scopus'' then Inr (scopus_clean_entry entry1)
              else if dialect = ''pubmed'' then Inr (pubmed_clean_entry entry1)
              else Inl ValueError))"

text \<open>
  \<open>pubmed_preprocess\<close>: \<open>found_pts\<close> is a set; its elements are listed here in the
  order of the candidates, and \<open>set_pick\<close> says which of them Python lists first.
\<close>

definition pubmed_preprocess :: "env \<Rightarrow> pydict \<Rightarrow> error + pydict" where
  "pubmed_preprocess E entry =
     (case get_semantic_map E ''pubmed'' of
        Inl e \<Rightarrow> Inl e
      | Inr sm \<Rightarrow>
          (case map_of sm ''ENTRYTYPE'' of
             None \<Rightarrow> Inl KeyError
           | Some inner \<Rightarrow>
               (case map_of entry ''PT'' of
                  None \<Rightarrow> Inl KeyError
                | Some pt \<Rightarrow>
                    (let candidate_pts = remdups (map fst inner);
                         all_pts = split pt ''; '';
                         found_pts = filter (\<lambda>c. c \<in> set all_pts) candidate_pts
                     in if length found_pts > 0
                        then Inr (dict_set entry ''PT''
                               (found_pts ! (set_pick E found_pts mod length found_pts)))
                        else Inr (dict_set entry ''PT'' ''Journal Article'')))))"

definition preprocess_entry :: "env \<Rightarrow> pydict \<Rightarrow> string \<Rightarrow> error + pydict option" where
  "preprocess_entry E entry dialect =
     (if dialect \<in> set [''ieee'', ''scopus''] then Inr (Some entry)
      else if dialect = ''pubmed'' then
        (case pubmed_preprocess E entry of Inl e \<Rightarrow> Inl e | Inr entry' \<Rightarrow> Inr (Some entry'))
      else Inr None)"

section \<open>The pipeline\<close>

text \<open>The body of the loop of \<open>transform\<close>, for the row at index \<open>i\<close>.\<close>

definition transform_row :: "env \<Rightarrow> string \<Rightarrow> nat \<Rightarrow> pydict \<Rightarrow> error + pydict" where
  "transform_row E dialect i row =
     (case preprocess_entry E row dialect of
        Inl e \<Rightarrow> Inl e
      | Inr entry0 \<Rightarrow>
          (case schema_map E i entry0 dialect of
             Inl e \<Rightarrow> Inl e
           | Inr entry1 \<Rightarrow>
               (case semantic_map E entry1 dialect of
                  Inl e \<Rightarrow> Inl e
                | Inr entry2 \<Rightarrow> clean_entry entry2 dialect)))"

fun transform_from :: "env \<Rightarrow> string \<Rightarrow> nat \<Rightarrow> pydict list \<Rightarrow> pydict list \<Rightarrow> error + pydict list" where
  "transform_from E dialect i [] database = Inr database"
| "transform_from E dialect i (row # entries) database =
     (case transform_row E dialect i row of
        Inl e \<Rightarrow> Inl e
      | Inr entry \<Rightarrow> transform_from E dialect (Suc i) entries (database @ [entry]))"

definition transform :: "env \<Rightarrow> string \<Rightarrow> pydict list \<Rightarrow> error + pydict list" where
  "transform E dialect entries = transform_from E dialect 0 entries []"

text \<open>
  The state of the loop of \<open>ris_to_dict\<close> once a line with a key has been read:
  \<open>oldkey\<close> is a key of \<open>content\<close>.
\<close>

definition ris_inv :: "pydict \<times> string option \<Rightarrow> bool" where
  "ris_inv st = (case snd st of None \<Rightarrow> False | Some k \<Rightarrow> map_of (fst st) k \<noteq> None)"

text \<open>
  The assignments \<open>entry[bib_key] = row[key]\<close> that the loops of \<open>schema_map\<close>
  perform for a row, in the order of the rules, and an entry after a list of
  assignments.
\<close>

definition item_assignments :: "pydict \<Rightarrow> (string \<times> string) list \<Rightarrow> (string \<times> string) list" where
  "item_assignments r items =
     concat (map (\<lambda>(key, bib_key).
        case map_of r key of None \<Rightarrow> [] | Some v \<Rightarrow> if v = [] then [] else [(bib_key, v)]) items)"

definition rule_assignments :: "pydict \<Rightarrow> pydict list \<Rightarrow> (string \<times> string) list" where
  "rule_assignments r syntax_map = concat (map (item_assignments r) syntax_map)"

fun assign_all :: "pydict \<Rightarrow> (string \<times> string) list \<Rightarrow> pydict" where
  "assign_all e [] = e"
| "assign_all e ((k, v) # ups) = assign_all (dict_set e k v) ups"

section \<open>Dictionaries: lookups after an update\<close>

lemma map_of_dict_set: "map_of (dict_set d k v) = (map_of d)(k \<mapsto> v)"
  by (induction d) (auto simp: fun_eq_iff)

lemma map_of_dict_pop: "map_of (dict_pop d k) k' = (if k' = k then None else map_of d k')"
  unfolding dict_pop_def by (induction d) auto

lemma keys_dict_set:
  "map fst (dict_set d k v) = (if k \<in> set (map fst d) then map fst d else map fst d @ [k])"
  by (induction d) auto

lemma distinct_dict_set: "distinct (map fst d) \<Longrightarrow> distinct (map fst (dict_set d k v))"
  by (simp add: keys_dict_set)

section \<open>The RIS reader: where it raises\<close>

lemma ris_lines_append:
  "ris_lines (ls @ ls') st =
     (case ris_lines ls st of Inl e \<Rightarrow> Inl e | Inr st' \<Rightarrow> ris_lines ls' st')"
  by (induction ls arbitrary: st) (auto split: sum.splits)

lemma ris_line_inv:
  "ris_inv st \<Longrightarrow> \<exists>st'. ris_line l st = Inr st' \<and> ris_inv st'"
  by (cases st) (auto simp: ris_inv_def ris_line_def Let_def map_of_dict_set split: option.splits)

lemma ris_lines_inv:
  "ris_inv st \<Longrightarrow> \<exists>st'. ris_lines ls st = Inr st' \<and> ris_inv st'"
proof (induction ls arbitrary: st)
  case Nil
  then show ?case by simp
next
  case (Cons l ls)
  from ris_line_inv [OF Cons.prems] obtain st1 where s: "ris_line l st = Inr st1" "ris_inv st1"
    by blast
  from Cons.IH [OF s(2)] s(1) show ?case by simp
qed

lemma ris_line_first:
  "ris_line l ([], None) =
     (if line_key l = [] then Inl KeyError
      else Inr ([(line_key l, line_value l)], Some (line_key l)))"
  by (simp add: ris_line_def Let_def)

text \<open>
  C10: \<open>ris_to_dict\<close> raises \<open>KeyError\<close> on every list of lines whose first line has
  a blank key portion, since the continuation branch looks up \<open>content[None]\<close>; on
  the empty list and on every list whose first line carries a key it returns a
  dictionary.
\<close>

theorem ris_to_dict_partial:
  "ris_to_dict [] = Inr [] \<and>
   (line_key l = [] \<longrightarrow> ris_to_dict (l # ls) = Inl KeyError) \<and>
   (line_key l \<noteq> [] \<longrightarrow> (\<exists>content. ris_to_dict (l # ls) = Inr content))"
proof (intro conjI impI)
  show "ris_to_dict [] = Inr []" by (simp add: ris_to_dict_def)
next
  assume "line_key l = []"
  then show "ris_to_dict (l # ls) = Inl KeyError"
    by (simp add: ris_to_dict_def ris_line_first)
next
  assume k: "line_key l \<noteq> []"
  have "ris_inv ([(line_key l, line_value l)], Some (line_key l))"
    by (simp add: ris_inv_def)
  from ris_lines_inv [OF this, of ls] obtain st' where
    "ris_lines ls ([(line_key l, line_value l)], Some (line_key l)) = Inr st'" by blast
  with k show "\<exists>content. ris_to_dict (l # ls) = Inr content"
    by (simp add: ris_to_dict_def ris_line_first)
qed

theorem ris_to_dict_partial_witness:
  "line_key ''      continued'' = [] \<and>
   ris_to_dict [''      continued'', ''AU  - Smith''] = Inl KeyError \<and>
   line_key ''AU  - Smith'' \<noteq> [] \<and>
   (\<exists>content. ris_to_dict [''AU  - Smith'', ''      continued''] = Inr content)"
proof -
  have a: "line_key ''      continued'' = []" by code_simp
  have b: "line_key ''AU  - Smith'' \<noteq> []" by code_simp
  from ris_to_dict_partial [of "''      continued''" "[''AU  - Smith'']"] a
  have c: "ris_to_dict [''      continued'', ''AU  - Smith''] = Inl KeyError" by blast
  from ris_to_dict_partial [of "''AU  - Smith''" "[''      continued'']"] b
  have d: "\<exists>content. ris_to_dict [''AU  - Smith'', ''      continued''] = Inr content" by blast
  from a b c d show ?thesis by blast
qed

section \<open>Scopus author names: the trailing name\<close>

text \<open>
  C3: on \<open>"Smith, J., Doe"\<close> the loop of \<open>scopus_author_canonicalize\<close> stops before
  the last piece of the split, so the function returns \<open>"Smith, J."\<close> and the trailing
  last name \<open>Doe\<close> is lost.
\<close>

theorem scopus_trailing_name_dropped:
  "scopus_author_canonicalize ''Smith, J., Doe'' = Some ''Smith, J.''"
  by code_simp

section \<open>Cleaning needs an entry type\<close>

text \<open>
  C9: for every dialect, \<open>clean_entry\<close> raises \<open>KeyError\<close> on an entry without the key
  \<open>ENTRYTYPE\<close>, whatever the dialect (so before any cleaner of a dialect runs), and a
  row whose entry leaves the semantic stage without that key makes the loop body of
  \<open>transform\<close> raise \<open>KeyError\<close>.
\<close>

theorem clean_entry_needs_entrytype:
  assumes "map_of entry ''ENTRYTYPE'' = None"
  shows "clean_entry entry dialect = Inl KeyError \<and>
         (\<forall>E i row e0 e1.
            preprocess_entry E row dialect = Inr e0 \<and> schema_map E i e0 dialect = Inr e1 \<and>
            semantic_map E e1 dialect = Inr entry \<longrightarrow>
            transform_row E dialect i row = Inl KeyError)"
  using assms by (auto simp: clean_entry_def transform_row_def)

theorem clean_entry_needs_entrytype_witness:
  "map_of [(''ID'', ''scopus_0''), (''title'', ''T'')] ''ENTRYTYPE'' = None \<and>
   clean_entry [(''ID'', ''scopus_0''), (''title'', ''T'')] ''scopus'' = Inl KeyError"
  using clean_entry_needs_entrytype [of "[(''ID'', ''scopus_0''), (''title'', ''T'')]" "''scopus''"]
  by simp

section \<open>Cleaning: the venue fields\<close>

lemma ieee_clean_other:
  "k \<noteq> ''author'' \<Longrightarrow> map_of (ieee_clean_entry e) k = map_of e k"
  by (simp add: ieee_clean_entry_def map_of_dict_set split: option.splits)

lemma scopus_clean_other:
  "k \<noteq> ''author'' \<Longrightarrow> map_of (scopus_clean_entry e) k = map_of e k"
  by (simp add: scopus_clean_entry_def map_of_dict_set map_of_dict_pop split: option.splits)

lemma pubmed_clean_doi_other:
  "k \<noteq> ''doi'' \<Longrightarrow> map_of (pubmed_clean_doi e) k = map_of e k"
  by (simp add: pubmed_clean_doi_def map_of_dict_set map_of_dict_pop split: option.splits)

lemma pubmed_clean_other:
  "k \<noteq> ''author'' \<Longrightarrow> k \<noteq> ''doi'' \<Longrightarrow> k \<noteq> ''year'' \<Longrightarrow>
   map_of (pubmed_clean_entry e) k = map_of e k"
  by (simp add: pubmed_clean_entry_def Let_def map_of_dict_set pubmed_clean_doi_other
      split: option.splits)

text \<open>A successful \<open>clean_entry\<close> is one of the three cleaners after the venue rule.\<close>

lemma clean_entry_cases:
  assumes "clean_entry e dialect = Inr r" "map_of e ''ENTRYTYPE'' = Some t"
  obtains c where "c = ieee_clean_entry \<or> c = scopus_clean_entry \<or> c = pubmed_clean_entry"
    and "r = c (if t = ''article'' then dict_pop e ''booktitle'' else dict_pop e ''journal'')"
proof (cases "dialect = ''ieee''")
  case True
  with assms have "r = ieee_clean_entry
      (if t = ''article'' then dict_pop e ''booktitle'' else dict_pop e ''journal'')"
    unfolding clean_entry_def Let_def by simp
  then show ?thesis using that by blast
next
  case n1: False
  show ?thesis
  proof (cases "dialect = ''scopus''")
    case True
    with assms n1 have "r = scopus_clean_entry
        (if t = ''article'' then dict_pop e ''booktitle'' else dict_pop e ''journal'')"
      unfolding clean_entry_def Let_def by simp
    then show ?thesis using that by blast
  next
    case n2: False
    show ?thesis
    proof (cases "dialect = ''pubmed''")
      case True
      with assms n1 n2 have "r = pubmed_clean_entry
          (if t = ''article'' then dict_pop e ''booktitle'' else dict_pop e ''journal'')"
        unfolding clean_entry_def Let_def by simp
      then show ?thesis using that by blast
    next
      case False
      with assms n1 n2 have False unfolding clean_entry_def Let_def by simp
      then show ?thesis ..
    qed
  qed
qed

text \<open>
  C6: for every entry with an \<open>ENTRYTYPE\<close> field and each of the dialects \<open>ieee\<close>,
  \<open>scopus\<close> and \<open>pubmed\<close>, \<open>clean_entry\<close> returns an entry; it has no \<open>booktitle\<close>
  field when the entry type is \<open>article\<close> and no \<open>journal\<close> field otherwise, so no
  cleaner of a dialect brings the dropped field back.
\<close>

theorem clean_entry_venue:
  assumes "map_of entry ''ENTRYTYPE'' = Some t"
    and "dialect = ''ieee'' \<or> dialect = ''scopus'' \<or> dialect = ''pubmed''"
  shows "\<exists>r. clean_entry entry dialect = Inr r \<and>
           (t = ''article'' \<longrightarrow> map_of r ''booktitle'' = None) \<and>
           (t \<noteq> ''article'' \<longrightarrow> map_of r ''journal'' = None)"
proof -
  from assms(2) have "\<exists>r. clean_entry entry dialect = Inr r"
    unfolding clean_entry_def Let_def using assms(1) by (elim disjE) simp_all
  then obtain r where r: "clean_entry entry dialect = Inr r" ..
  from clean_entry_cases [OF r assms(1)] obtain c where
    c: "c = ieee_clean_entry \<or> c = scopus_clean_entry \<or> c = pubmed_clean_entry"
    and rc: "r = c (if t = ''article'' then dict_pop entry ''booktitle''
                    else dict_pop entry ''journal'')"
    by blast
  have keep: "map_of (c e) ''booktitle'' = map_of e ''booktitle'' \<and>
              map_of (c e) ''journal'' = map_of e ''journal''" for e
    using c by (elim disjE) (simp_all add: ieee_clean_other scopus_clean_other pubmed_clean_other)
  have "map_of r ''booktitle'' = None" if "t = ''article''"
    using that by (simp add: rc keep map_of_dict_pop)
  moreover have "map_of r ''journal'' = None" if "t \<noteq> ''article''"
    using that by (simp add: rc keep map_of_dict_pop)
  ultimately show ?thesis using r by blast
qed

theorem clean_entry_venue_witness:
  "map_of [(''ENTRYTYPE'', ''article''), (''journal'', ''J''), (''booktitle'', ''B'')] ''ENTRYTYPE''
     = Some ''article'' \<and>
   (\<exists>r. clean_entry [(''ENTRYTYPE'', ''article''), (''journal'', ''J''), (''booktitle'', ''B'')]
           ''pubmed'' = Inr r \<and> map_of r ''booktitle'' = None)"
proof -
  have a: "map_of [(''ENTRYTYPE'', ''article''), (''journal'', ''J''), (''booktitle'', ''B'')]
             ''ENTRYTYPE'' = Some ''article''" by simp
  from clean_entry_venue [OF a, of "''pubmed''"] a show ?thesis by blast
qed

section \<open>The RIS reader: record boundaries\<close>

lemma ris_to_dict_not_stop: "ris_to_dict ls \<noteq> Inl StopIteration"
proof (cases ls)
  case Nil
  then show ?thesis by (simp add: ris_to_dict_def)
next
  case (Cons l ls')
  show ?thesis
  proof (cases "line_key l = []")
    case True
    with Cons show ?thesis by (simp add: ris_to_dict_def ris_line_first)
  next
    case False
    have "ris_inv ([(line_key l, line_value l)], Some (line_key l))"
      by (simp add: ris_inv_def)
    from ris_lines_inv [OF this, of ls'] obtain st' where
      "ris_lines ls' ([(line_key l, line_value l)], Some (line_key l)) = Inr st'" by blast
    with False Cons show ?thesis by (simp add: ris_to_dict_def ris_line_first)
  qed
qed

lemma next_from_stop:
  "fst (next_from rest read_lines) = Inl StopIteration \<longleftrightarrow> rest = [] \<and> read_lines = []"
  by (induction rest arbitrary: read_lines) (auto simp: ris_to_dict_not_stop)

text \<open>
  What \<open>__next__\<close> returns: \<open>StopIteration\<close> exactly when no line is left in the
  file; the record of the lines before the first blank line, with the lines after it
  left in the file; and, without a blank line, the record of all the lines.
\<close>

lemma next_from_closing:
  "\<forall>l \<in> set ls. strip l \<noteq> [] \<Longrightarrow> strip b = [] \<Longrightarrow>
   next_from (ls @ b # rest) read_lines = (ris_to_dict (read_lines @ ls), rest)"
  by (induction ls arbitrary: read_lines) simp_all

lemma next_from_end:
  "\<forall>l \<in> set ls. strip l \<noteq> [] \<Longrightarrow> read_lines @ ls \<noteq> [] \<Longrightarrow>
   next_from ls read_lines = (ris_to_dict (read_lines @ ls), [])"
  by (induction ls arbitrary: read_lines) simp_all

lemma ris_next_stop: "fst (ris_next lines) = Inl StopIteration \<longleftrightarrow> lines = []"
  by (simp add: ris_next_def next_from_stop)

lemma ris_next_blank_closes:
  "\<forall>l \<in> set ls. strip l \<noteq> [] \<Longrightarrow> strip b = [] \<Longrightarrow>
   ris_next (ls @ b # rest) = (ris_to_dict ls, rest)"
  by (simp add: ris_next_def next_from_closing)

lemma ris_next_end_closes:
  "\<forall>l \<in> set ls. strip l \<noteq> [] \<Longrightarrow> ls \<noteq> [] \<Longrightarrow> ris_next ls = (ris_to_dict ls, [])"
  by (simp add: ris_next_def next_from_end)

lemma pubmed_preprocess_empty: "pubmed_preprocess E [] = Inl KeyError"
  by (simp add: pubmed_preprocess_def get_semantic_map_def split: option.splits)

lemma transform_row_empty_record: "transform_row E ''pubmed'' i [] = Inl KeyError"
  by (simp add: transform_row_def preprocess_entry_def pubmed_preprocess_empty)

text \<open>
  C2: the check for zero accumulated lines stands on the end-of-input path of
  \<open>__next__\<close> only. On a file with two consecutive blank lines the first call returns
  the record before them, and the second call, which meets a blank line with no line
  accumulated, returns a record with no field instead of raising \<open>StopIteration\<close>.
  The loop body of \<open>transform\<close> then raises \<open>KeyError\<close> on that record for the
  dialect \<open>pubmed\<close>, whatever the tables, since the record has no \<open>PT\<close> field.
\<close>

theorem ris_next_empty_record:
  "ris_next [''AU  - Smith, J.'' @ [CHR 0x0A], [CHR 0x0A], [CHR 0x0A], ''TI  - Title'' @ [CHR 0x0A]]
     = (Inr [(''AU'', ''Smith, J.'')], [[CHR 0x0A], ''TI  - Title'' @ [CHR 0x0A]]) \<and>
   ris_next [[CHR 0x0A], ''TI  - Title'' @ [CHR 0x0A]] = (Inr [], [''TI  - Title'' @ [CHR 0x0A]]) \<and>
   transform_row E ''pubmed'' i [] = Inl KeyError"
proof (intro conjI)
  show "ris_next [''AU  - Smith, J.'' @ [CHR 0x0A], [CHR 0x0A], [CHR 0x0A], ''TI  - Title'' @ [CHR 0x0A]]
     = (Inr [(''AU'', ''Smith, J.'')], [[CHR 0x0A], ''TI  - Title'' @ [CHR 0x0A]])"
    by code_simp
  show "ris_next [[CHR 0x0A], ''TI  - Title'' @ [CHR 0x0A]] = (Inr [], [''TI  - Title'' @ [CHR 0x0A]])"
    by code_simp
  show "transform_row E ''pubmed'' i [] = Inl KeyError" by (rule transform_row_empty_record)
qed

section \<open>PubMed: the DOI among the identifiers\<close>

lemma foldl_doi_step:
  "foldl doi_step d xs =
     (if filter is_doi xs = [] then d else Some (doi_of (last (filter is_doi xs))))"
  by (induction xs rule: rev_induct) (simp_all add: doi_step_def)

lemma find_doi_last:
  "find_doi v =
     (if filter is_doi (split v '';'') = [] then None
      else Some (doi_of (last (filter is_doi (split v '';'')))))"
  by (simp add: find_doi_def foldl_doi_step)

lemma pubmed_clean_entry_doi:
  "map_of (pubmed_clean_entry entry) ''doi'' =
     (case map_of entry ''doi'' of
        None \<Rightarrow> None
      | Some v \<Rightarrow>
          (case find_doi v of
             None \<Rightarrow> None
           | Some d \<Rightarrow> if d = [] then None else Some d))"
  by (simp add: pubmed_clean_entry_def pubmed_clean_doi_def Let_def map_of_dict_set
      map_of_dict_pop split: option.splits)

text \<open>
  C7, as the code has it: for every entry with a \<open>doi\<close> field, the pieces of the
  value between semicolons whose trimmed form ends in \<open>[doi]\<close> are the matches. With
  no match the field is removed. Otherwise the last match decides: its trimmed form
  without the five characters of the suffix, trimmed again, becomes the field when it
  is not empty, and the field is removed when it is empty.
\<close>

theorem pubmed_doi_extraction:
  assumes "map_of entry ''doi'' = Some v"
  shows "(filter is_doi (split v '';'') = [] \<longrightarrow>
            map_of (pubmed_clean_entry entry) ''doi'' = None) \<and>
         (filter is_doi (split v '';'') \<noteq> [] \<longrightarrow>
            map_of (pubmed_clean_entry entry) ''doi'' =
              (if doi_of (last (filter is_doi (split v '';''))) = [] then None
               else Some (doi_of (last (filter is_doi (split v '';''))))))"
  using assms by (simp add: pubmed_clean_entry_doi find_doi_last)

theorem pubmed_doi_extraction_witness:
  "map_of [(''doi'', ''12345 [pmid]; 10.1000/xyz [doi]'')] ''doi''
     = Some ''12345 [pmid]; 10.1000/xyz [doi]'' \<and>
   filter is_doi (split ''12345 [pmid]; 10.1000/xyz [doi]'' '';'') = ['' 10.1000/xyz [doi]''] \<and>
   doi_of '' 10.1000/xyz [doi]'' = ''10.1000/xyz'' \<and>
   map_of (pubmed_clean_entry [(''doi'', ''12345 [pmid]; 10.1000/xyz [doi]'')]) ''doi''
     = Some ''10.1000/xyz''"
proof -
  have a: "map_of [(''doi'', ''12345 [pmid]; 10.1000/xyz [doi]'')] ''doi''
     = Some ''12345 [pmid]; 10.1000/xyz [doi]''" by simp
  have b: "filter is_doi (split ''12345 [pmid]; 10.1000/xyz [doi]'' '';'') = ['' 10.1000/xyz [doi]'']"
    by code_simp
  have c: "doi_of '' 10.1000/xyz [doi]'' = ''10.1000/xyz''" by code_simp
  from pubmed_doi_extraction [OF a] b c
  have "map_of (pubmed_clean_entry [(''doi'', ''12345 [pmid]; 10.1000/xyz [doi]'')]) ''doi''
     = Some ''10.1000/xyz''" by simp
  with a b c show ?thesis by blast
qed

text \<open>
  The claim as stated fails where the match has nothing before the suffix: the value
  \<open>"[doi]"\<close> has a matching piece, whose remainder is the empty string, and the field
  is removed instead of being set to that remainder.
\<close>

theorem pubmed_doi_empty_remainder:
  "filter is_doi (split ''[doi]'' '';'') = [''[doi]''] \<and>
   doi_of ''[doi]'' = [] \<and>
   pubmed_clean_entry [(''doi'', ''[doi]'')] = []"
  by code_simp

section \<open>The RIS reader: decoding a line\<close>

lemma ris_line_oldkey:
  "ris_line l st = Inr st' \<Longrightarrow>
   snd st' = (if line_key l = [] then snd st else Some (line_key l))"
  by (cases st) (auto simp: ris_line_def Let_def split: option.splits if_splits)

lemma ris_lines_oldkey:
  "ris_lines ls st = Inr st' \<Longrightarrow>
   snd st' = (if filter (\<lambda>k. k \<noteq> []) (map line_key ls) = [] then snd st
              else Some (last (filter (\<lambda>k. k \<noteq> []) (map line_key ls))))"
proof (induction ls arbitrary: st)
  case Nil
  then show ?case by simp
next
  case (Cons l ls)
  from Cons.prems obtain st1 where s: "ris_line l st = Inr st1" "ris_lines ls st1 = Inr st'"
    by (auto split: sum.splits)
  from Cons.IH [OF s(2)] ris_line_oldkey [OF s(1)] show ?case by simp
qed

lemma ris_lines_start_inv:
  assumes "ris_lines ls ([], None) = Inr st" "ls \<noteq> []"
  shows "ris_inv st"
proof -
  from assms(2) obtain l ls' where ls: "ls = l # ls'" by (cases ls) auto
  with assms(1) have k: "line_key l \<noteq> []"
    and r: "ris_lines ls' ([(line_key l, line_value l)], Some (line_key l)) = Inr st"
    by (auto simp: ris_line_first split: if_splits)
  have "ris_inv ([(line_key l, line_value l)], Some (line_key l))"
    by (simp add: ris_inv_def)
  from ris_lines_inv [OF this, of ls'] r show ?thesis by auto
qed

lemma ris_to_dict_snoc:
  "ris_lines ls ([], None) = Inr st \<Longrightarrow>
   ris_to_dict (ls @ [l]) =
     (case ris_line l st of Inl e \<Rightarrow> Inl e | Inr st' \<Rightarrow> Inr (fst st'))"
  by (simp add: ris_to_dict_def ris_lines_append split: sum.splits)

text \<open>
  C5: the key of a line is its first four characters, trimmed, and its value the
  characters from position 6 on, trimmed. When the lines before \<open>l\<close> decode to
  \<open>content\<close>, the line \<open>l\<close> changes one field and no other: a key not yet in
  \<open>content\<close> gets the value; a key already there gets the old value, \<open>"; "\<close> and
  the value; a line with a blank key portion appends a space and the value to the
  field of the last line before it that had a key. The lines
  \<open>["AU  - Smith, J.", "      continued"]\<close> give \<open>AU\<close> = \<open>"Smith, J. continued"\<close>.
  No bound on the length of the lines is needed: a slice of a short line is short.
\<close>

theorem ris_to_dict_decoding:
  assumes "ris_to_dict ls = Inr content"
  shows "line_key l = strip (take 4 l) \<and> line_value l = strip (drop 6 l) \<and>
    (line_key l \<noteq> [] \<and> map_of content (line_key l) = None \<longrightarrow>
       (\<exists>c. ris_to_dict (ls @ [l]) = Inr c \<and>
            map_of c = (map_of content)(line_key l \<mapsto> line_value l))) \<and>
    (\<forall>old. line_key l \<noteq> [] \<and> map_of content (line_key l) = Some old \<longrightarrow>
       (\<exists>c. ris_to_dict (ls @ [l]) = Inr c \<and>
            map_of c = (map_of content)(line_key l \<mapsto> old @ ''; '' @ line_value l))) \<and>
    (line_key l = [] \<and> filter (\<lambda>k. k \<noteq> []) (map line_key ls) \<noteq> [] \<longrightarrow>
       (\<exists>old c. map_of content (last (filter (\<lambda>k. k \<noteq> []) (map line_key ls))) = Some old \<and>
            ris_to_dict (ls @ [l]) = Inr c \<and>
            map_of c = (map_of content)
              (last (filter (\<lambda>k. k \<noteq> []) (map line_key ls)) \<mapsto> old @ '' '' @ line_value l))) \<and>
    ris_to_dict [''AU  - Smith, J.'', ''      continued''] = Inr [(''AU'', ''Smith, J. continued'')]"
proof -
  from assms obtain oldkey where st: "ris_lines ls ([], None) = Inr (content, oldkey)"
    by (auto simp: ris_to_dict_def split: sum.splits)
  note snoc = ris_to_dict_snoc [OF st, of l]
  have new: "\<exists>c. ris_to_dict (ls @ [l]) = Inr c \<and>
            map_of c = (map_of content)(line_key l \<mapsto> line_value l)"
    if "line_key l \<noteq> []" "map_of content (line_key l) = None"
    using that by (simp add: snoc ris_line_def Let_def map_of_dict_set)
  have rep: "\<exists>c. ris_to_dict (ls @ [l]) = Inr c \<and>
            map_of c = (map_of content)(line_key l \<mapsto> old @ ''; '' @ line_value l)"
    if "line_key l \<noteq> []" "map_of content (line_key l) = Some old" for old
    using that by (simp add: snoc ris_line_def Let_def map_of_dict_set)
  have cont: "\<exists>old c. map_of content (last (filter (\<lambda>k. k \<noteq> []) (map line_key ls))) = Some old \<and>
            ris_to_dict (ls @ [l]) = Inr c \<and>
            map_of c = (map_of content)
              (last (filter (\<lambda>k. k \<noteq> []) (map line_key ls)) \<mapsto> old @ '' '' @ line_value l)"
    if e: "line_key l = []" and ks: "filter (\<lambda>k. k \<noteq> []) (map line_key ls) \<noteq> []"
  proof -
    from ks have "ls \<noteq> []" by auto
    from ris_lines_start_inv [OF st this] ris_lines_oldkey [OF st] ks
    obtain old where ok: "oldkey = Some (last (filter (\<lambda>k. k \<noteq> []) (map line_key ls)))"
      and old: "map_of content (last (filter (\<lambda>k. k \<noteq> []) (map line_key ls))) = Some old"
      by (auto simp: ris_inv_def)
    from e ok old show ?thesis
      by (simp add: snoc ris_line_def Let_def map_of_dict_set)
  qed
  have ex: "ris_to_dict [''AU  - Smith, J.'', ''      continued'']
            = Inr [(''AU'', ''Smith, J. continued'')]"
    by code_simp
  from new rep cont ex show ?thesis
    by (simp add: line_key_def line_value_def)
qed

theorem ris_to_dict_decoding_witness:
  "ris_to_dict [''AU  - Smith, J.'', ''ID  - 1''] = Inr [(''AU'', ''Smith, J.''), (''ID'', ''1'')] \<and>
   line_key ''AU  - Doe, A.'' = ''AU'' \<and> line_value ''AU  - Doe, A.'' = ''Doe, A.'' \<and>
   (\<exists>c. ris_to_dict ([''AU  - Smith, J.'', ''ID  - 1''] @ [''AU  - Doe, A.'']) = Inr c \<and>
        map_of c = (map_of [(''AU'', ''Smith, J.''), (''ID'', ''1'')])(''AU'' \<mapsto> ''Smith, J.; Doe, A.''))"
proof -
  have a: "ris_to_dict [''AU  - Smith, J.'', ''ID  - 1''] = Inr [(''AU'', ''Smith, J.''), (''ID'', ''1'')]"
    by code_simp
  have k: "line_key ''AU  - Doe, A.'' = ''AU''" by code_simp
  have v: "line_value ''AU  - Doe, A.'' = ''Doe, A.''" by code_simp
  have k': "line_key ''AU  - Doe, A.'' \<noteq> []" unfolding k by simp
  have m: "map_of [(''AU'', ''Smith, J.''), (''ID'', ''1'')] (line_key ''AU  - Doe, A.'')
             = Some ''Smith, J.''" unfolding k by simp
  from ris_to_dict_decoding [OF a, of "''AU  - Doe, A.''"] k' m
  have "\<exists>c. ris_to_dict ([''AU  - Smith, J.'', ''ID  - 1''] @ [''AU  - Doe, A.'']) = Inr c \<and>
        map_of c = (map_of [(''AU'', ''Smith, J.''), (''ID'', ''1'')])
          (line_key ''AU  - Doe, A.'' \<mapsto> ''Smith, J.'' @ ''; '' @ line_value ''AU  - Doe, A.'')"
    by blast
  then have "\<exists>c. ris_to_dict ([''AU  - Smith, J.'', ''ID  - 1''] @ [''AU  - Doe, A.'']) = Inr c \<and>
        map_of c = (map_of [(''AU'', ''Smith, J.''), (''ID'', ''1'')])(''AU'' \<mapsto> ''Smith, J.; Doe, A.'')"
    unfolding k v by simp
  with a k v show ?thesis by blast
qed

section \<open>The semantic map is strict\<close>

lemma semantic_items_fail:
  "(k, v) \<in> set items \<Longrightarrow> map_of sm k = Some inner \<Longrightarrow> map_of inner v = None \<Longrightarrow>
   semantic_items sm items entry = Inl KeyError"
proof (induction items arbitrary: entry)
  case Nil
  then show ?case by simp
next
  case (Cons p items)
  obtain k0 v0 where p: "p = (k0, v0)" by (cases p)
  show ?case
  proof (cases "p = (k, v)")
    case True
    with p Cons.prems show ?thesis by simp
  next
    case False
    with Cons.prems have "(k, v) \<in> set items" by simp
    from Cons.IH [OF this Cons.prems(2,3)] p show ?thesis
      by (simp split: option.splits)
  qed
qed

lemma semantic_items_ok:
  assumes "distinct (map fst items)"
    and "set (map fst items) \<subseteq> set (map fst entry)"
    and "\<forall>k v inner. (k, v) \<in> set items \<and> map_of sm k = Some inner \<longrightarrow> map_of inner v \<noteq> None"
  shows "\<exists>r. semantic_items sm items entry = Inr r \<and> map fst r = map fst entry \<and>
           (\<forall>k. map_of r k =
              (case map_of items k of
                 None \<Rightarrow> map_of entry k
               | Some v \<Rightarrow> (case map_of sm k of None \<Rightarrow> map_of entry k
                            | Some inner \<Rightarrow> map_of inner v)))"
  using assms
proof (induction items arbitrary: entry)
  case Nil
  then show ?case by simp
next
  case (Cons p items)
  obtain k0 v0 where p: "p = (k0, v0)" by (cases p)
  from Cons.prems(1) p have d: "distinct (map fst items)" and k0: "map_of items k0 = None"
    by (auto simp: map_of_eq_None_iff)
  from Cons.prems(3) have h: "\<forall>k v inner. (k, v) \<in> set items \<and> map_of sm k = Some inner
      \<longrightarrow> map_of inner v \<noteq> None" by auto
  show ?case
  proof (cases "map_of sm k0")
    case None
    from Cons.prems(2) have "set (map fst items) \<subseteq> set (map fst entry)" by auto
    from Cons.IH [OF d this h] obtain r where
      r: "semantic_items sm items entry = Inr r" "map fst r = map fst entry"
        "\<forall>k. map_of r k = (case map_of items k of None \<Rightarrow> map_of entry k
           | Some v \<Rightarrow> (case map_of sm k of None \<Rightarrow> map_of entry k
                        | Some inner \<Rightarrow> map_of inner v))"
      by blast
    with p None k0 show ?thesis by (auto split: option.splits)
  next
    case (Some inner)
    with Cons.prems(3) p obtain v' where v': "map_of inner v0 = Some v'" by fastforce
    from Cons.prems(2) p have in0: "k0 \<in> set (map fst entry)" by auto
    then have keys: "map fst (dict_set entry k0 v') = map fst entry"
      by (simp add: keys_dict_set)
    with Cons.prems(2) have "set (map fst items) \<subseteq> set (map fst (dict_set entry k0 v'))"
      by auto
    from Cons.IH [OF d this h] obtain r where
      r: "semantic_items sm items (dict_set entry k0 v') = Inr r"
        "map fst r = map fst (dict_set entry k0 v')"
        "\<forall>k. map_of r k = (case map_of items k of None \<Rightarrow> map_of (dict_set entry k0 v') k
           | Some v \<Rightarrow> (case map_of sm k of None \<Rightarrow> map_of (dict_set entry k0 v') k
                        | Some inner \<Rightarrow> map_of inner v))"
      by blast
    have "map_of r k = (case map_of (p # items) k of None \<Rightarrow> map_of entry k
           | Some v \<Rightarrow> (case map_of sm k of None \<Rightarrow> map_of entry k
                        | Some inner \<Rightarrow> map_of inner v))" for k
    proof (cases "k = k0")
      case True
      with r(3) k0 p Some v' show ?thesis by (simp add: map_of_dict_set)
    next
      case False
      with r(3) p show ?thesis by (simp add: map_of_dict_set split: option.splits)
    qed
    with r(1,2) keys p Some v' show ?thesis by simp
  qed
qed

text \<open>
  C4: let \<open>sm\<close> be the semantic map of the dialect and let the keys of the entry be
  distinct. If some key of the entry is a key of \<open>sm\<close> and the value of the entry
  there has no image in the inner map, \<open>semantic_map\<close> raises \<open>KeyError\<close>: no value
  is put in its place. If every such value has an image, \<open>semantic_map\<close> returns an
  entry with the same keys in the same order, where a key of \<open>sm\<close> has the image of
  its old value and every other key has its old value.
\<close>

theorem semantic_map_strict:
  assumes "map_of (semantic_yaml E) dialect = Some sm" and "distinct (map fst entry)"
  shows "((\<exists>k v inner. (k, v) \<in> set entry \<and> map_of sm k = Some inner \<and> map_of inner v = None)
            \<longrightarrow> semantic_map E entry dialect = Inl KeyError) \<and>
         ((\<forall>k v inner. (k, v) \<in> set entry \<and> map_of sm k = Some inner \<longrightarrow> map_of inner v \<noteq> None)
            \<longrightarrow> (\<exists>r. semantic_map E entry dialect = Inr r \<and> map fst r = map fst entry \<and>
                  (\<forall>k v. (k, v) \<in> set entry \<longrightarrow>
                     map_of r k = (case map_of sm k of None \<Rightarrow> Some v
                                   | Some inner \<Rightarrow> map_of inner v))))"
proof (intro conjI impI)
  assume "\<exists>k v inner. (k, v) \<in> set entry \<and> map_of sm k = Some inner \<and> map_of inner v = None"
  then obtain k v inner where "(k, v) \<in> set entry" "map_of sm k = Some inner"
    "map_of inner v = None" by blast
  from semantic_items_fail [OF this] assms(1)
  show "semantic_map E entry dialect = Inl KeyError"
    by (simp add: semantic_map_def get_semantic_map_def)
next
  assume h: "\<forall>k v inner. (k, v) \<in> set entry \<and> map_of sm k = Some inner \<longrightarrow> map_of inner v \<noteq> None"
  from semantic_items_ok [OF assms(2) subset_refl h] obtain r where
    r: "semantic_items sm entry entry = Inr r" "map fst r = map fst entry"
      "\<forall>k. map_of r k = (case map_of entry k of None \<Rightarrow> map_of entry k
           | Some v \<Rightarrow> (case map_of sm k of None \<Rightarrow> map_of entry k
                        | Some inner \<Rightarrow> map_of inner v))"
    by blast
  have "map_of r k = (case map_of sm k of None \<Rightarrow> Some v | Some inner \<Rightarrow> map_of inner v)"
    if "(k, v) \<in> set entry" for k v
  proof -
    from that assms(2) have "map_of entry k = Some v" by simp
    with r(3) show ?thesis by (simp split: option.splits)
  qed
  with r(1,2) assms(1)
  show "\<exists>r. semantic_map E entry dialect = Inr r \<and> map fst r = map fst entry \<and>
          (\<forall>k v. (k, v) \<in> set entry \<longrightarrow>
             map_of r k = (case map_of sm k of None \<Rightarrow> Some v | Some inner \<Rightarrow> map_of inner v))"
    by (simp add: semantic_map_def get_semantic_map_def)
qed

theorem semantic_map_strict_witness:
  "semantic_map
     \<lparr>syntax_yaml = [],
      semantic_yaml = [(''ieee'', [(''ENTRYTYPE'', [(''IEEE Journals'', ''article'')])])],
      set_pick = (\<lambda>xs. 0)\<rparr>
     [(''ID'', ''ieee_0''), (''ENTRYTYPE'', ''IEEE Standards'')] ''ieee'' = Inl KeyError \<and>
   (\<exists>r. semantic_map
     \<lparr>syntax_yaml = [],
      semantic_yaml = [(''ieee'', [(''ENTRYTYPE'', [(''IEEE Journals'', ''article'')])])],
      set_pick = (\<lambda>xs. 0)\<rparr>
     [(''ID'', ''ieee_0''), (''ENTRYTYPE'', ''IEEE Journals'')] ''ieee'' = Inr r \<and>
     map fst r = [''ID'', ''ENTRYTYPE''] \<and>
     map_of r ''ID'' = Some ''ieee_0'' \<and> map_of r ''ENTRYTYPE'' = Some ''article'')"
proof -
  let ?sm = "[(''ENTRYTYPE'', [(''IEEE Journals'', ''article'')])]"
  let ?E = "\<lparr>syntax_yaml = [], semantic_yaml = [(''ieee'', ?sm)], set_pick = (\<lambda>xs. 0)\<rparr>"
  let ?bad = "[(''ID'', ''ieee_0''), (''ENTRYTYPE'', ''IEEE Standards'')]"
  let ?ok = "[(''ID'', ''ieee_0''), (''ENTRYTYPE'', ''IEEE Journals'')]"
  have t: "map_of (semantic_yaml ?E) ''ieee'' = Some ?sm" by simp
  have db: "distinct (map fst ?bad)" by simp
  have dk: "distinct (map fst ?ok)" by simp
  have miss: "\<exists>k v inner. (k, v) \<in> set ?bad \<and> map_of ?sm k = Some inner \<and> map_of inner v = None"
    by (intro exI [of _ "''ENTRYTYPE''"] exI [of _ "''IEEE Standards''"]
        exI [of _ "[(''IEEE Journals'', ''article'')]"]) simp
  have hit: "\<forall>k v inner. (k, v) \<in> set ?ok \<and> map_of ?sm k = Some inner \<longrightarrow> map_of inner v \<noteq> None"
    by auto
  from semantic_map_strict [OF t db] miss
  have a: "semantic_map ?E ?bad ''ieee'' = Inl KeyError" by blast
  from semantic_map_strict [OF t dk] hit obtain r where
    r: "semantic_map ?E ?ok ''ieee'' = Inr r" "map fst r = map fst ?ok"
      "\<forall>k v. (k, v) \<in> set ?ok \<longrightarrow>
         map_of r k = (case map_of ?sm k of None \<Rightarrow> Some v | Some inner \<Rightarrow> map_of inner v)"
    by blast
  from r(3) have "map_of r ''ID'' = (case map_of ?sm ''ID'' of None \<Rightarrow> Some ''ieee_0''
      | Some inner \<Rightarrow> map_of inner ''ieee_0'')"
    by (rule allE [of _ "''ID''"]) (erule allE [of _ "''ieee_0''"], simp)
  then have i: "map_of r ''ID'' = Some ''ieee_0''" by simp
  from r(3) have "map_of r ''ENTRYTYPE'' = (case map_of ?sm ''ENTRYTYPE'' of
      None \<Rightarrow> Some ''IEEE Journals'' | Some inner \<Rightarrow> map_of inner ''IEEE Journals'')"
    by (rule allE [of _ "''ENTRYTYPE''"]) (erule allE [of _ "''IEEE Journals''"], simp)
  then have e: "map_of r ''ENTRYTYPE'' = Some ''article''" by simp
  from r(2) have ks: "map fst r = [''ID'', ''ENTRYTYPE'']" by simp
  show ?thesis
  proof (intro conjI exI)
    show "semantic_map ?E ?bad ''ieee'' = Inl KeyError" by (fact a)
    show "semantic_map ?E ?ok ''ieee'' = Inr r" by (fact r(1))
    show "map fst r = [''ID'', ''ENTRYTYPE'']" by (fact ks)
    show "map_of r ''ID'' = Some ''ieee_0''" by (fact i)
    show "map_of r ''ENTRYTYPE'' = Some ''article''" by (fact e)
  qed
qed

section \<open>The syntax map: a second pass changes nothing\<close>

lemma assign_all_append: "assign_all e (xs @ ys) = assign_all (assign_all e xs) ys"
  by (induction xs arbitrary: e) auto

lemma schema_items_assign:
  "schema_items (Some r) items e = Inr (assign_all e (item_assignments r items))"
  by (induction items arbitrary: e)
     (auto simp: item_assignments_def split: option.splits)

lemma schema_rules_assign:
  "schema_rules (Some r) syntax_map e = Inr (assign_all e (rule_assignments r syntax_map))"
  by (induction syntax_map arbitrary: e)
     (simp_all add: rule_assignments_def schema_items_assign assign_all_append)

lemma schema_items_None: "schema_items None items e = Inr e1 \<Longrightarrow> e1 = e"
  by (cases items) auto

lemma schema_rules_None: "schema_rules None syntax_map e = Inr e1 \<Longrightarrow> e1 = e"
  by (induction syntax_map arbitrary: e) (auto split: sum.splits dest: schema_items_None)

lemma map_of_assign_all: "map_of (assign_all e ups) = map_of e ++ map_of (rev ups)"
  by (induction ups arbitrary: e) (auto simp: map_of_dict_set fun_eq_iff map_add_def split: option.splits)

lemma keys_set_dict_set: "set (map fst (dict_set e k v)) = insert k (set (map fst e))"
  by (auto simp: keys_dict_set)

lemma keys_set_assign_all:
  "set (map fst (assign_all e ups)) = set (map fst e) \<union> fst ` set ups"
proof (induction ups arbitrary: e)
  case Nil
  then show ?case by simp
next
  case (Cons p ups)
  obtain k v where p: "p = (k, v)" by (cases p)
  from Cons.IH [of "dict_set e k v"] p show ?case
    by (simp only: assign_all.simps keys_set_dict_set) auto
qed

lemma keys_assign_all_in:
  "fst ` set ups \<subseteq> set (map fst e) \<Longrightarrow> map fst (assign_all e ups) = map fst e"
proof (induction ups arbitrary: e)
  case Nil
  then show ?case by simp
next
  case (Cons p ups)
  obtain k v where p: "p = (k, v)" by (cases p)
  from Cons.prems p have k: "k \<in> set (map fst e)" and r: "fst ` set ups \<subseteq> set (map fst e)"
    by auto
  from k have same: "map fst (dict_set e k v) = map fst e" by (simp add: keys_dict_set)
  with r have "fst ` set ups \<subseteq> set (map fst (dict_set e k v))" by simp
  from Cons.IH [OF this] same p show ?case by simp
qed

lemma keys_assign_all_sup: "fst ` set ups \<subseteq> set (map fst (assign_all e ups))"
  by (simp only: keys_set_assign_all) blast

lemma distinct_assign_all:
  "distinct (map fst e) \<Longrightarrow> distinct (map fst (assign_all e ups))"
  by (induction ups arbitrary: e) (auto simp: distinct_dict_set)

lemma dict_eqI:
  "map fst xs = map fst ys \<Longrightarrow> map_of xs = map_of ys \<Longrightarrow> distinct (map fst xs) \<Longrightarrow> xs = ys"
proof (induction xs arbitrary: ys)
  case Nil
  then show ?case by simp
next
  case (Cons p xs)
  obtain k v where p: "p = (k, v)" by (cases p)
  from Cons.prems(1) p obtain w ys' where ys: "ys = (k, w) # ys'" and ks: "map fst xs = map fst ys'"
    by (cases ys) auto
  from Cons.prems(2) have "map_of (p # xs) k = map_of ys k" by (rule fun_cong)
  then have vw: "v = w" unfolding p ys by simp
  from Cons.prems(3) p have kx: "k \<notin> set (map fst xs)" and dx: "distinct (map fst xs)" by simp_all
  from kx ks have ky: "k \<notin> set (map fst ys')" by simp
  have "map_of xs x = map_of ys' x" for x
  proof (cases "x = k")
    case True
    from kx have "map_of xs k = None" by (simp add: map_of_eq_None_iff)
    moreover from ky have "map_of ys' k = None" by (simp add: map_of_eq_None_iff)
    ultimately show ?thesis using True by simp
  next
    case False
    from Cons.prems(2) have "map_of (p # xs) x = map_of ys x" by (rule fun_cong)
    with False show ?thesis unfolding p ys by simp
  qed
  then have "map_of xs = map_of ys'" by (rule ext)
  from Cons.IH [OF ks this dx] have "xs = ys'" .
  with p ys vw show ?case by simp
qed

lemma assign_all_twice:
  assumes "distinct (map fst e)"
  shows "assign_all (assign_all e ups) ups = assign_all e ups"
proof (rule dict_eqI)
  show "map fst (assign_all (assign_all e ups) ups) = map fst (assign_all e ups)"
    by (rule keys_assign_all_in) (rule keys_assign_all_sup)
  show "map_of (assign_all (assign_all e ups) ups) = map_of (assign_all e ups)"
    by (simp add: map_of_assign_all fun_eq_iff map_add_def split: option.splits)
  show "distinct (map fst (assign_all (assign_all e ups) ups))"
    by (intro distinct_assign_all assms)
qed

text \<open>
  C8: the pass of the syntax rules over a row is idempotent. If the pass over \<open>row\<close>
  takes an entry with distinct keys to \<open>entry1\<close>, the same pass over the same row
  takes \<open>entry1\<close> to \<open>entry1\<close>; so it is for the entry that \<open>schema_map\<close> returns
  for any index and dialect; and on a row that is a dictionary the pass always returns
  an entry.
\<close>

theorem schema_rules_idempotent:
  "(distinct (map fst entry0) \<and> schema_rules row syntax_map entry0 = Inr entry1
      \<longrightarrow> schema_rules row syntax_map entry1 = Inr entry1) \<and>
   (map_of (syntax_yaml E) dialect = Some syntax_map \<and> schema_map E i row dialect = Inr entry
      \<longrightarrow> schema_rules row syntax_map entry = Inr entry) \<and>
   (\<exists>entry2. schema_rules (Some r) syntax_map entry0 = Inr entry2)"
proof -
  have idem: "schema_rules row syntax_map e1 = Inr e1"
    if d: "distinct (map fst e0)" and s: "schema_rules row syntax_map e0 = Inr e1" for e0 e1
  proof (cases row)
    case None
    from s None have "schema_rules None syntax_map e0 = Inr e1" by simp
    then have "e1 = e0" by (rule schema_rules_None)
    with s show ?thesis by simp
  next
    case (Some r')
    with s have "e1 = assign_all e0 (rule_assignments r' syntax_map)"
      by (simp add: schema_rules_assign)
    with Some d show ?thesis
      by (simp add: schema_rules_assign assign_all_twice)
  qed
  show ?thesis
  proof (intro conjI impI)
    assume "distinct (map fst entry0) \<and> schema_rules row syntax_map entry0 = Inr entry1"
    then have "distinct (map fst entry0)" "schema_rules row syntax_map entry0 = Inr entry1"
      by (rule conjunct1, rule conjunct2)
    then show "schema_rules row syntax_map entry1 = Inr entry1" by (rule idem)
  next
    assume a: "map_of (syntax_yaml E) dialect = Some syntax_map \<and>
               schema_map E i row dialect = Inr entry"
    from a have a1: "map_of (syntax_yaml E) dialect = Some syntax_map" by (rule conjunct1)
    from a have a2: "schema_map E i row dialect = Inr entry" by (rule conjunct2)
    from a2 have s: "schema_rules row syntax_map [(''ID'', entry_id dialect i)] = Inr entry"
      unfolding schema_map_def get_syntax_map_def a1 by simp
    have d: "distinct (map fst [(''ID'', entry_id dialect i)])" by simp
    from d s show "schema_rules row syntax_map entry = Inr entry" by (rule idem)
  next
    show "\<exists>entry2. schema_rules (Some r) syntax_map entry0 = Inr entry2"
      by (simp add: schema_rules_assign)
  qed
qed

theorem schema_rules_idempotent_witness:
  "distinct (map fst [(''ID'', ''ieee_0'')]) \<and>
   schema_rules (Some [(''Title'', ''T''), (''Alt'', ''A''), (''Year'', [])])
     [[(''Title'', ''title'')], [(''Year'', ''year'')], [(''Alt'', ''title'')]]
     [(''ID'', ''ieee_0'')] = Inr [(''ID'', ''ieee_0''), (''title'', ''A'')] \<and>
   schema_rules (Some [(''Title'', ''T''), (''Alt'', ''A''), (''Year'', [])])
     [[(''Title'', ''title'')], [(''Year'', ''year'')], [(''Alt'', ''title'')]]
     [(''ID'', ''ieee_0''), (''title'', ''A'')] = Inr [(''ID'', ''ieee_0''), (''title'', ''A'')]"
proof -
  let ?row = "Some [(''Title'', ''T''), (''Alt'', ''A''), (''Year'', [])]"
  let ?sm = "[[(''Title'', ''title'')], [(''Year'', ''year'')], [(''Alt'', ''title'')]]"
  let ?e0 = "[(''ID'', ''ieee_0'')]"
  let ?e1 = "[(''ID'', ''ieee_0''), (''title'', ''A'')]"
  have d: "distinct (map fst ?e0)" by simp
  have s: "schema_rules ?row ?sm ?e0 = Inr ?e1" by code_simp
  note t = schema_rules_idempotent [of ?e0 ?row ?sm ?e1, THEN conjunct1, rule_format]
  have "schema_rules ?row ?sm ?e1 = Inr ?e1" by (rule t) (rule conjI [OF d s])
  with d s show ?thesis by (intro conjI)
qed

section \<open>The pipeline: one entry per row, numbered in order\<close>

lemma digit_inj: "a < 10 \<Longrightarrow> b < 10 \<Longrightarrow> digit a = digit b \<Longrightarrow> a = b"
  by (simp add: digit_def)

lemma str_nat_nonempty: "str_nat n \<noteq> []"
  by (subst str_nat.simps) simp

lemma str_nat_inj: "str_nat n = str_nat m \<Longrightarrow> n = m"
proof (induction n arbitrary: m rule: str_nat.induct)
  case (1 n)
  show ?case
  proof (cases "n < 10")
    case n: True
    show ?thesis
    proof (cases "m < 10")
      case True
      with n "1.prems" show ?thesis
        by (simp add: str_nat.simps [of n] str_nat.simps [of m] digit_inj)
    next
      case False
      with n "1.prems" str_nat_nonempty [of "m div 10"] show ?thesis
        by (simp add: str_nat.simps [of n] str_nat.simps [of m])
    qed
  next
    case n: False
    show ?thesis
    proof (cases "m < 10")
      case True
      with n "1.prems" str_nat_nonempty [of "n div 10"] show ?thesis
        by (simp add: str_nat.simps [of n] str_nat.simps [of m])
    next
      case False
      with n "1.prems" have e: "str_nat (n div 10) = str_nat (m div 10)"
        and d: "digit (n mod 10) = digit (m mod 10)"
        by (simp_all add: str_nat.simps [of n] str_nat.simps [of m])
      from "1.IH" [OF n e] have "n div 10 = m div 10" .
      moreover from d have "n mod 10 = m mod 10" by (rule digit_inj [rotated 2]) simp_all
      ultimately show ?thesis by (metis div_mult_mod_eq)
    qed
  qed
qed

lemma entry_id_inj:
  assumes "entry_id dialect i = entry_id dialect j"
  shows "i = j"
proof -
  from assms have "str_nat i = str_nat j" by (simp add: entry_id_def)
  then show ?thesis by (rule str_nat_inj)
qed

lemma item_assignments_Cons:
  "item_assignments r ((key, bib_key) # items) =
     (case map_of r key of None \<Rightarrow> [] | Some v \<Rightarrow> if v = [] then [] else [(bib_key, v)])
     @ item_assignments r items"
  by (simp add: item_assignments_def)

lemma item_assignments_keys: "fst ` set (item_assignments r items) \<subseteq> snd ` set items"
proof (induction items)
  case Nil
  then show ?case by (simp add: item_assignments_def)
next
  case (Cons p items)
  obtain key bib_key where p: "p = (key, bib_key)" by (cases p)
  have h: "fst ` set (case map_of r key of None \<Rightarrow> []
          | Some v \<Rightarrow> if v = [] then [] else [(bib_key, v)]) \<subseteq> {bib_key}"
    by (cases "map_of r key") auto
  have "fst ` set (item_assignments r (p # items)) =
        fst ` set (case map_of r key of None \<Rightarrow> []
          | Some v \<Rightarrow> if v = [] then [] else [(bib_key, v)]) \<union>
        fst ` set (item_assignments r items)"
    unfolding p item_assignments_Cons by (simp only: set_append image_Un)
  also have "\<dots> \<subseteq> {bib_key} \<union> snd ` set items"
    using h Cons.IH by (rule Un_mono)
  also have "\<dots> = snd ` set (p # items)" unfolding p by simp
  finally show ?case .
qed

lemma rule_assignments_keys:
  "k \<in> fst ` set (rule_assignments r syntax_map) \<Longrightarrow>
   \<exists>synmap \<in> set syntax_map. k \<in> snd ` set synmap"
proof (induction syntax_map)
  case Nil
  then show ?case by (simp add: rule_assignments_def)
next
  case (Cons synmap syntax_map)
  from Cons.prems have "k \<in> fst ` set (item_assignments r synmap) \<or>
      k \<in> fst ` set (rule_assignments r syntax_map)"
    by (simp add: rule_assignments_def image_Un)
  then show ?case
  proof
    assume "k \<in> fst ` set (item_assignments r synmap)"
    then have "k \<in> snd ` set synmap" by (rule subsetD [OF item_assignments_keys])
    then show ?thesis by simp
  next
    assume "k \<in> fst ` set (rule_assignments r syntax_map)"
    from Cons.IH [OF this] show ?thesis by simp
  qed
qed

lemma map_of_assign_all_other:
  "k \<notin> fst ` set ups \<Longrightarrow> map_of (assign_all e ups) k = map_of e k"
  by (induction ups arbitrary: e) (auto simp: map_of_dict_set)

lemma schema_rules_other:
  assumes "\<forall>synmap \<in> set syntax_map. k \<notin> snd ` set synmap"
    and "schema_rules row syntax_map e = Inr e1"
  shows "map_of e1 k = map_of e k"
proof (cases row)
  case None
  with assms(2) have "schema_rules None syntax_map e = Inr e1" by simp
  then have "e1 = e" by (rule schema_rules_None)
  then show ?thesis by simp
next
  case (Some r)
  with assms(2) have e1: "e1 = assign_all e (rule_assignments r syntax_map)"
    by (simp add: schema_rules_assign)
  from assms(1) rule_assignments_keys [of k r syntax_map]
  have "k \<notin> fst ` set (rule_assignments r syntax_map)" by blast
  then show ?thesis unfolding e1 by (rule map_of_assign_all_other)
qed

lemma semantic_items_other:
  "map_of sm k = None \<Longrightarrow> semantic_items sm items entry = Inr r \<Longrightarrow>
   map_of r k = map_of entry k"
proof (induction items arbitrary: entry)
  case Nil
  then show ?case by simp
next
  case (Cons p items)
  obtain k0 v0 where p: "p = (k0, v0)" by (cases p)
  show ?case
  proof (cases "map_of sm k0")
    case None
    with Cons.prems(2) p have "semantic_items sm items entry = Inr r" by simp
    from Cons.IH [OF Cons.prems(1) this] show ?thesis .
  next
    case (Some inner)
    with Cons.prems(2) p obtain v' where v': "map_of inner v0 = Some v'"
      and r: "semantic_items sm items (dict_set entry k0 v') = Inr r"
      by (auto split: option.splits)
    from Some Cons.prems(1) have "k \<noteq> k0" by auto
    with Cons.IH [OF Cons.prems(1) r] show ?thesis by (simp add: map_of_dict_set)
  qed
qed

lemma clean_entry_other_field:
  assumes "clean_entry e dialect = Inr r"
    and "k \<noteq> ''author''" "k \<noteq> ''doi''" "k \<noteq> ''year''" "k \<noteq> ''booktitle''" "k \<noteq> ''journal''"
  shows "map_of r k = map_of e k"
proof -
  from assms(1) obtain t where t: "map_of e ''ENTRYTYPE'' = Some t"
    by (cases "map_of e ''ENTRYTYPE''") (simp_all add: clean_entry_def)
  from clean_entry_cases [OF assms(1) t] obtain c where
    c: "c = ieee_clean_entry \<or> c = scopus_clean_entry \<or> c = pubmed_clean_entry"
    and rc: "r = c (if t = ''article'' then dict_pop e ''booktitle'' else dict_pop e ''journal'')"
    by blast
  have "map_of (c e') k = map_of e' k" for e'
    using c assms(2-4)
    by (elim disjE) (simp_all add: ieee_clean_other scopus_clean_other pubmed_clean_other)
  with assms(5,6) show ?thesis unfolding rc by (simp add: map_of_dict_pop)
qed

lemma transform_row_ID:
  assumes syn: "\<forall>sm synmap. map_of (syntax_yaml E) dialect = Some sm \<and> synmap \<in> set sm
                  \<longrightarrow> ''ID'' \<notin> snd ` set synmap"
    and sem: "\<forall>sm. map_of (semantic_yaml E) dialect = Some sm \<longrightarrow> map_of sm ''ID'' = None"
    and row: "transform_row E dialect i row = Inr entry"
  shows "map_of entry ''ID'' = Some (entry_id dialect i)"
proof -
  from row obtain e0 e1 e2 where
    s1: "schema_map E i e0 dialect = Inr e1"
    and s2: "semantic_map E e1 dialect = Inr e2"
    and s3: "clean_entry e2 dialect = Inr entry"
    by (auto simp: transform_row_def split: sum.splits)
  from s1 obtain sm where sm: "map_of (syntax_yaml E) dialect = Some sm"
    and r1: "schema_rules e0 sm [(''ID'', entry_id dialect i)] = Inr e1"
    by (auto simp: schema_map_def get_syntax_map_def split: option.splits)
  from syn sm have "\<forall>synmap \<in> set sm. ''ID'' \<notin> snd ` set synmap" by blast
  from schema_rules_other [OF this r1] have i1: "map_of e1 ''ID'' = Some (entry_id dialect i)"
    by simp
  from s2 obtain sem_map where t: "map_of (semantic_yaml E) dialect = Some sem_map"
    and r2: "semantic_items sem_map e1 e1 = Inr e2"
    by (auto simp: semantic_map_def get_semantic_map_def split: option.splits)
  from sem t have "map_of sem_map ''ID'' = None" by blast
  from semantic_items_other [OF this r2] i1 have i2: "map_of e2 ''ID'' = Some (entry_id dialect i)"
    by simp
  from clean_entry_other_field [OF s3, of "''ID''"] i2 show ?thesis by simp
qed

lemma transform_from_rows:
  "transform_from E dialect i rows db = Inr out \<Longrightarrow>
   \<exists>new. out = db @ new \<and> length new = length rows \<and>
     (\<forall>j < length rows. transform_row E dialect (i + j) (rows ! j) = Inr (new ! j))"
proof (induction rows arbitrary: i db)
  case Nil
  then show ?case by simp
next
  case (Cons row rows)
  from Cons.prems obtain entry where e: "transform_row E dialect i row = Inr entry"
    and r: "transform_from E dialect (Suc i) rows (db @ [entry]) = Inr out"
    by (auto split: sum.splits)
  from Cons.IH [OF r] obtain new where n: "out = (db @ [entry]) @ new" "length new = length rows"
    "\<forall>j < length rows. transform_row E dialect (Suc i + j) (rows ! j) = Inr (new ! j)"
    by blast
  have "transform_row E dialect (i + j) ((row # rows) ! j) = Inr ((entry # new) ! j)"
    if "j < length (row # rows)" for j
  proof (cases j)
    case 0
    with e show ?thesis by simp
  next
    case (Suc j')
    with that n(3) show ?thesis by simp
  qed
  with n(1,2) show ?case by (intro exI [of _ "entry # new"]) simp
qed

text \<open>
  C1, as the code has it: whenever \<open>transform\<close> returns a database for a list of
  \<open>n\<close> rows, the database has \<open>n\<close> entries and the entry at index \<open>i\<close> is the one
  the loop body builds from the row at index \<open>i\<close>. If moreover no syntax rule of
  the dialect has the target \<open>ID\<close> and the semantic map of the dialect has no key
  \<open>ID\<close>, the \<open>ID\<close> of the entry at index \<open>i\<close> is the dialect, an underscore and
  the decimal numeral of \<open>i\<close>, and the identifiers of the database are pairwise
  different.
\<close>

theorem transform_ids:
  assumes "transform E dialect entries = Inr database"
  shows "length database = length entries \<and>
         (\<forall>i < length entries. transform_row E dialect i (entries ! i) = Inr (database ! i)) \<and>
         ((\<forall>sm synmap. map_of (syntax_yaml E) dialect = Some sm \<and> synmap \<in> set sm
              \<longrightarrow> ''ID'' \<notin> snd ` set synmap) \<and>
          (\<forall>sm. map_of (semantic_yaml E) dialect = Some sm \<longrightarrow> map_of sm ''ID'' = None)
          \<longrightarrow> (\<forall>i < length entries.
                 map_of (database ! i) ''ID'' = Some (dialect @ ''_'' @ str_nat i)) \<and>
              distinct (map (\<lambda>entry. map_of entry ''ID'') database))"
proof -
  from assms have "transform_from E dialect 0 entries [] = Inr database"
    by (simp add: transform_def)
  from transform_from_rows [OF this] have len: "length database = length entries"
    and rows: "\<forall>j < length entries. transform_row E dialect j (entries ! j) = Inr (database ! j)"
    by auto
  have tab: "(\<forall>i < length entries.
                 map_of (database ! i) ''ID'' = Some (dialect @ ''_'' @ str_nat i)) \<and>
              distinct (map (\<lambda>entry. map_of entry ''ID'') database)"
    if syn: "\<forall>sm synmap. map_of (syntax_yaml E) dialect = Some sm \<and> synmap \<in> set sm
              \<longrightarrow> ''ID'' \<notin> snd ` set synmap"
      and sem: "\<forall>sm. map_of (semantic_yaml E) dialect = Some sm \<longrightarrow> map_of sm ''ID'' = None"
  proof -
    have ids: "map_of (database ! j) ''ID'' = Some (entry_id dialect j)"
      if "j < length entries" for j
      using rows that transform_row_ID [OF syn sem] by blast
    have "map (\<lambda>entry. map_of entry ''ID'') database
          = map (\<lambda>j. Some (entry_id dialect j)) [0..<length database]"
      by (rule nth_equalityI) (simp_all add: ids len)
    moreover have "inj_on (\<lambda>j. Some (entry_id dialect j)) (set [0..<length database])"
      by (rule inj_onI) (rule entry_id_inj, simp)
    then have "distinct (map (\<lambda>j. Some (entry_id dialect j)) [0..<length database])"
      by (simp add: distinct_map)
    ultimately have "distinct (map (\<lambda>entry. map_of entry ''ID'') database)" by simp
    with ids show ?thesis by (simp add: entry_id_def)
  qed
  show ?thesis
  proof (intro conjI impI)
    show "length database = length entries" by (rule len)
    show "\<forall>i < length entries. transform_row E dialect i (entries ! i) = Inr (database ! i)"
      by (rule rows)
  next
    assume h: "(\<forall>sm synmap. map_of (syntax_yaml E) dialect = Some sm \<and> synmap \<in> set sm
              \<longrightarrow> ''ID'' \<notin> snd ` set synmap) \<and>
          (\<forall>sm. map_of (semantic_yaml E) dialect = Some sm \<longrightarrow> map_of sm ''ID'' = None)"
    from tab [OF conjunct1 [OF h] conjunct2 [OF h]]
    show "\<forall>i < length entries.
                 map_of (database ! i) ''ID'' = Some (dialect @ ''_'' @ str_nat i)"
      by (rule conjunct1)
    from tab [OF conjunct1 [OF h] conjunct2 [OF h]]
    show "distinct (map (\<lambda>entry. map_of entry ''ID'') database)" by (rule conjunct2)
  qed
qed

theorem transform_ids_witness:
  "transform
     \<lparr>syntax_yaml = [(''ieee'', [[(''Document Title'', ''title'')],
                                  [(''Document Identifier'', ''ENTRYTYPE'')]])],
      semantic_yaml = [(''ieee'', [(''ENTRYTYPE'', [(''IEEE Journals'', ''article'')])])],
      set_pick = (\<lambda>xs. 0)\<rparr>
     ''ieee''
     [[(''Document Title'', ''A''), (''Document Identifier'', ''IEEE Journals'')],
      [(''Document Title'', ''B''), (''Document Identifier'', ''IEEE Journals'')]]
   = Inr [[(''ID'', ''ieee_0''), (''title'', ''A''), (''ENTRYTYPE'', ''article'')],
          [(''ID'', ''ieee_1''), (''title'', ''B''), (''ENTRYTYPE'', ''article'')]] \<and>
   length [[(''ID'', ''ieee_0''), (''title'', ''A''), (''ENTRYTYPE'', ''article'')],
           [(''ID'', ''ieee_1''), (''title'', ''B''), (''ENTRYTYPE'', ''article'')]]
   = length [[(''Document Title'', ''A''), (''Document Identifier'', ''IEEE Journals'')],
             [(''Document Title'', ''B''), (''Document Identifier'', ''IEEE Journals'')]] \<and>
   distinct (map (\<lambda>entry. map_of entry ''ID'')
     [[(''ID'', ''ieee_0''), (''title'', ''A''), (''ENTRYTYPE'', ''article'')],
      [(''ID'', ''ieee_1''), (''title'', ''B''), (''ENTRYTYPE'', ''article'')]])"
proof -
  let ?E = "\<lparr>syntax_yaml = [(''ieee'', [[(''Document Title'', ''title'')],
                                  [(''Document Identifier'', ''ENTRYTYPE'')]])],
      semantic_yaml = [(''ieee'', [(''ENTRYTYPE'', [(''IEEE Journals'', ''article'')])])],
      set_pick = (\<lambda>xs. 0)\<rparr>"
  let ?rows = "[[(''Document Title'', ''A''), (''Document Identifier'', ''IEEE Journals'')],
      [(''Document Title'', ''B''), (''Document Identifier'', ''IEEE Journals'')]]"
  let ?db = "[[(''ID'', ''ieee_0''), (''title'', ''A''), (''ENTRYTYPE'', ''article'')],
          [(''ID'', ''ieee_1''), (''title'', ''B''), (''ENTRYTYPE'', ''article'')]]"
  have syn: "\<forall>sm synmap. map_of (syntax_yaml ?E) ''ieee'' = Some sm \<and> synmap \<in> set sm
                  \<longrightarrow> ''ID'' \<notin> snd ` set synmap"
    by auto
  have sem: "\<forall>sm. map_of (semantic_yaml ?E) ''ieee'' = Some sm \<longrightarrow> map_of sm ''ID'' = None"
    by auto
  have run: "transform ?E ''ieee'' ?rows = Inr ?db" by code_simp
  note t = transform_ids [OF run]
  from t have len: "length ?db = length ?rows" by (rule conjunct1)
  from t [THEN conjunct2, THEN conjunct2, THEN mp, OF conjI [OF syn sem]]
  have dist: "distinct (map (\<lambda>entry. map_of entry ''ID'') ?db)" by (rule conjunct2)
  from run len dist show ?thesis by (intro conjI)
qed

text \<open>
  The claim as stated fails for a table with a rule whose target is \<open>ID\<close>: the rule
  writes over the identifier that \<open>schema_map\<close> generated, so two rows with the same
  \<open>DOI\<close> give, without any error, two entries with the same \<open>ID\<close>, which is neither
  \<open>ieee_0\<close> nor \<open>ieee_1\<close>.
\<close>

theorem transform_rule_on_ID:
  "transform
     \<lparr>syntax_yaml = [(''ieee'', [[(''DOI'', ''ID'')], [(''Document Identifier'', ''ENTRYTYPE'')]])],
      semantic_yaml = [(''ieee'', [(''ENTRYTYPE'', [(''IEEE Journals'', ''article'')])])],
      set_pick = (\<lambda>xs. 0)\<rparr>
     ''ieee''
     [[(''DOI'', ''10.1000/xyz''), (''Document Identifier'', ''IEEE Journals'')],
      [(''DOI'', ''10.1000/xyz''), (''Document Identifier'', ''IEEE Journals'')]]
   = Inr [[(''ID'', ''10.1000/xyz''), (''ENTRYTYPE'', ''article'')],
          [(''ID'', ''10.1000/xyz''), (''ENTRYTYPE'', ''article'')]] \<and>
   entry_id ''ieee'' 0 = ''ieee_0'' \<and> entry_id ''ieee'' 1 = ''ieee_1''"
  by code_simp

end
